theory Spec2Isabelle
  imports Main
begin

section \<open>Python helpers used by \<open>baristabot_app.py\<close>\<close>

text \<open>\<open>sep.join(xs)\<close>: the elements of \<open>xs\<close> with \<open>sep\<close> between neighbours.\<close>

fun join :: "string \<Rightarrow> string list \<Rightarrow> string" where
  "join sep [] = []"
| "join sep [x] = x"
| "join sep (x # y # ys) = x @ sep @ join sep (y # ys)"

text \<open>\<open>str(n)\<close> for an integer, as an f-string renders it: decimal digits, a leading
  minus sign for a negative number.\<close>

definition digit :: "nat \<Rightarrow> char" where
  "digit d = ''0123456789'' ! d"

function str_nat :: "nat \<Rightarrow> string" where
  "str_nat n = (if n < 10 then [digit n] else str_nat (n div 10) @ [digit (n mod 10)])"
  by pat_completeness auto
termination
  by (relation "measure id") auto

definition str_int :: "int \<Rightarrow> string" where
  "str_int i = (if i < 0 then ''-'' @ str_nat (nat (- i)) else str_nat (nat i))"

text \<open>The randomness source. \<open>random.randint(a, b)\<close> returns an integer \<open>N\<close> with
  \<open>a \<le> N \<le> b\<close>; which one is decided outside the program. The source of raw values is a
  parameter of the model: \<open>g k\<close> is the raw value behind the \<open>k\<close>-th draw, and \<open>randint\<close>
  maps a raw value into the requested closed range.\<close>

type_synonym rng = "nat \<Rightarrow> nat"

definition randint :: "int \<Rightarrow> int \<Rightarrow> nat \<Rightarrow> int" where
  "randint a b r = a + int (r mod nat (b - a + 1))"

definition const_rng :: "nat \<Rightarrow> rng" where
  "const_rng r k = r"

section \<open>Data model\<close>

text \<open>The arguments of a tool call. The values have the types of the declared tool
  schemas (\<open>drink: str\<close>, \<open>modifiers: list[str]\<close>, \<open>order: list[str]\<close>); a key that the
  dictionary does not hold is \<open>None\<close>, and reading it with \<open>args["key"]\<close> raises
  \<open>KeyError\<close>.\<close>

record tool_args =
  drink :: "string option"
  modifiers :: "string list option"
  order_arg :: "string list option"

text \<open>A tool call of an assistant message: \<open>tool_call["name"]\<close>, \<open>tool_call["args"]\<close>,
  \<open>tool_call["id"]\<close>.\<close>

record tool_call =
  name :: string
  args :: tool_args
  call_id :: string

text \<open>Messages. Only an assistant message has the attribute \<open>tool_calls\<close> (a list,
  empty when the assistant asked for no tool); a tool message carries its content, the
  name of the tool and the identifier of the call it answers.\<close>

datatype message =
    HumanMessage string
  | SystemMessage string
  | AIMessage string "tool_call list"
  | ToolMessage (content: string) (tool_name: string) (tool_call_id: string)

text \<open>\<open>getattr(msg, "tool_calls")\<close>: \<open>None\<close> where the attribute does not exist.\<close>

fun tool_calls :: "message \<Rightarrow> tool_call list option" where
  "tool_calls (AIMessage _ cs) = Some cs"
| "tool_calls _ = None"

definition hasattr_tool_calls :: "message \<Rightarrow> bool" where
  "hasattr_tool_calls m = (tool_calls m \<noteq> None)"

text \<open>\<open>class OrderState(TypedDict)\<close>.\<close>

record order_state =
  messages :: "message list"
  order :: "string list"
  finished :: bool

datatype error =
    IndexError
  | AttributeError
  | KeyError string
  | ValueError string

section \<open>Start-up configuration (lines 18--22)\<close>

text \<open>The environment after \<open>load_dotenv()\<close> is a map from variable names to values.
  \<open>not GOOGLE_API_KEY\<close> holds for a variable that is unset (\<open>os.getenv\<close> returns
  \<open>None\<close>) and for one set to the empty string. On success the key is written back to
  the environment.\<close>

definition load_config :: "(string \<rightharpoonup> string) \<Rightarrow> error + (string \<rightharpoonup> string)" where
  "load_config env =
     (case env ''GOOGLE_API_KEY'' of
        None \<Rightarrow> Inl (ValueError ''Google API key not found! Add it to a .env file.'')
      | Some k \<Rightarrow>
          if k = [] then Inl (ValueError ''Google API key not found! Add it to a .env file.'')
          else Inr (env(''GOOGLE_API_KEY'' \<mapsto> k)))"

section \<open>Tool catalog (lines 51--78, 115)\<close>

definition add_to_order :: "string \<Rightarrow> string list \<Rightarrow> string" where
  "add_to_order d ms =
     ''Added '' @ d @ '' with '' @ (if ms \<noteq> [] then join '', '' ms else ''no modifiers'') @ ''.''"

definition confirm_order :: "string list \<Rightarrow> string" where
  "confirm_order ord = ''Your current order is: '' @ join '', '' ord @ ''.''"

definition clear_order :: string where
  "clear_order = ''Order cleared.''"

definition place_order :: "string list \<Rightarrow> nat \<Rightarrow> int" where
  "place_order ord r = randint 1 5 r"

definition tools :: "string list" where
  "tools = [''get_menu'', ''add_to_order'', ''confirm_order'', ''clear_order'', ''place_order'']"

section \<open>The order node (lines 82--111)\<close>

text \<open>The local variables of \<open>order_node\<close> that the loop over the tool calls changes,
  and the number of \<open>randint\<close> calls made so far.\<close>

record locals =
  cur_order :: "string list"
  outbound_msgs :: "message list"
  order_placed :: bool
  draws :: nat

definition line_item :: "string \<Rightarrow> string list \<Rightarrow> string" where
  "line_item d ms =
     d @ '' ('' @ (if ms \<noteq> [] then join '', '' ms else ''no modifiers'') @ '')''"

text \<open>The \<open>if\<close>/\<open>elif\<close> chain of the loop body: the response text and the locals after
  the branch.\<close>

definition dispatch :: "rng \<Rightarrow> tool_call \<Rightarrow> locals \<Rightarrow> error + (string \<times> locals)" where
  "dispatch g c s =
     (if name c = ''add_to_order'' then
        (case drink (args c) of
           None \<Rightarrow> Inl (KeyError ''drink'')
         | Some d \<Rightarrow>
             (case modifiers (args c) of
                None \<Rightarrow> Inl (KeyError ''modifiers'')
              | Some ms \<Rightarrow>
                  (let ord = cur_order s @ [line_item d ms]
                   in Inr (''Order updated: '' @ join '', '' ord @ ''.'',
                           s\<lparr>cur_order := ord\<rparr>))))
      else if name c = ''confirm_order'' then
        Inr (''Your order is: '' @ join '', '' (cur_order s) @ ''. Is this correct?'', s)
      else if name c = ''clear_order'' then
        Inr (''Order cleared.'', s\<lparr>cur_order := []\<rparr>)
      else if name c = ''place_order'' then
        Inr (''Order placed! ETA: '' @ str_int (randint 1 5 (g (draws s))) @ '' minutes.'',
             s\<lparr>order_placed := True, draws := Suc (draws s)\<rparr>)
      else
        Inr (''Unrecognized action.'', s))"

text \<open>One iteration of the loop: the branch, then the tool message appended to
  \<open>outbound_msgs\<close>.\<close>

definition handle_call :: "rng \<Rightarrow> tool_call \<Rightarrow> locals \<Rightarrow> error + locals" where
  "handle_call g c s =
     (case dispatch g c s of
        Inl e \<Rightarrow> Inl e
      | Inr (response, s') \<Rightarrow>
          Inr (s'\<lparr>outbound_msgs :=
                    outbound_msgs s' @ [ToolMessage response (name c) (call_id c)]\<rparr>))"

text \<open>The \<open>for\<close> loop: the calls in list order; an exception ends it.\<close>

fun run_calls :: "rng \<Rightarrow> tool_call list \<Rightarrow> locals \<Rightarrow> error + locals" where
  "run_calls g [] s = Inr s"
| "run_calls g (c # cs) s =
     (case handle_call g c s of Inl e \<Rightarrow> Inl e | Inr s' \<Rightarrow> run_calls g cs s')"

definition init_locals :: "order_state \<Rightarrow> locals" where
  "init_locals state =
     \<lparr>cur_order = order state, outbound_msgs = [], order_placed = False, draws = 0\<rparr>"

text \<open>\<open>order_node\<close>: \<open>state["messages"][-1]\<close> raises \<open>IndexError\<close> on an empty list and
  \<open>tool_msg.tool_calls\<close> raises \<open>AttributeError\<close> on a message without the attribute.
  The returned dictionary holds the new tool messages only.\<close>

definition order_node :: "order_state \<Rightarrow> rng \<Rightarrow> error + order_state" where
  "order_node state g =
     (case messages state of
        [] \<Rightarrow> Inl IndexError
      | _ # _ \<Rightarrow>
          (case tool_calls (last (messages state)) of
             None \<Rightarrow> Inl AttributeError
           | Some cs \<Rightarrow>
               (case run_calls g cs (init_locals state) of
                  Inl e \<Rightarrow> Inl e
                | Inr s \<Rightarrow>
                    Inr \<lparr>messages = outbound_msgs s, order = cur_order s,
                         finished = order_placed s\<rparr>)))"

section \<open>The graph (lines 119--127)\<close>

text \<open>The conditional edge after the \<open>chatbot\<close> node.\<close>

definition router :: "order_state \<Rightarrow> error + string" where
  "router state =
     (case messages state of
        [] \<Rightarrow> Inl IndexError
      | _ # _ \<Rightarrow>
          Inr (if hasattr_tool_calls (last (messages state)) then ''ordering''
               else ''chatbot''))"

text \<open>The name of the terminal node of a \<open>StateGraph\<close>, the constant \<open>END\<close>.\<close>

definition END :: string where
  "END = ''__end__''"

text \<open>How the graph merges the dictionary a node returns into the state: the channel
  \<open>messages\<close> has the reducer \<open>add_messages\<close>, which appends; \<open>order\<close> and \<open>finished\<close>
  have none and are overwritten.\<close>

definition apply_update :: "order_state \<Rightarrow> order_state \<Rightarrow> order_state" where
  "apply_update state upd =
     \<lparr>messages = messages state @ messages upd, order = order upd,
      finished = finished upd\<rparr>"

text \<open>One visit of the node \<open>ordering\<close>: the assistant message \<open>m\<close> that the \<open>chatbot\<close>
  node produced is appended, \<open>order_node\<close> runs, its result is merged.\<close>

definition ordering_step :: "order_state \<Rightarrow> message \<Rightarrow> rng \<Rightarrow> error + order_state" where
  "ordering_step state m g =
     (let state' = state\<lparr>messages := messages state @ [m]\<rparr>
      in case order_node state' g of
           Inl e \<Rightarrow> Inl e
         | Inr upd \<Rightarrow> Inr (apply_update state' upd))"

section \<open>The session (lines 130--146)\<close>

text \<open>The state a session starts from (line 134).\<close>

definition new_session :: order_state where
  "new_session = \<lparr>messages = [], order = [], finished = False\<rparr>"

text \<open>A sequence of visits of the node \<open>ordering\<close>, each with the assistant message that
  led to it and the randomness of that visit; an exception ends the run.\<close>

fun run_turns :: "order_state \<Rightarrow> (message \<times> rng) list \<Rightarrow> error + order_state" where
  "run_turns state [] = Inr state"
| "run_turns state ((m, g) # ts) =
     (case ordering_step state m g of Inl e \<Rightarrow> Inl e | Inr state' \<Rightarrow> run_turns state' ts)"

text \<open>The module runs top to bottom: the configuration check of lines 18--22 comes
  before the graph is built and before \<open>main\<close> serves any input.\<close>

definition session :: "(string \<rightharpoonup> string) \<Rightarrow> (message \<times> rng) list \<Rightarrow> error + order_state" where
  "session env turns =
     (case load_config env of Inl e \<Rightarrow> Inl e | Inr _ \<Rightarrow> run_turns new_session turns)"

section \<open>Auxiliary notions for the statements\<close>

text \<open>A tool call without arguments, and a tool call from its three parts.\<close>

definition no_args :: tool_args where
  "no_args = \<lparr>drink = None, modifiers = None, order_arg = None\<rparr>"

definition call :: "string \<Rightarrow> tool_args \<Rightarrow> string \<Rightarrow> tool_call" where
  "call n a i = \<lparr>name = n, args = a, call_id = i\<rparr>"

text \<open>The only reads that can raise inside the loop are \<open>args["drink"]\<close> and
  \<open>args["modifiers"]\<close> of an \<open>add_to_order\<close> call.\<close>

definition has_required_args :: "tool_call \<Rightarrow> bool" where
  "has_required_args c =
     (name c = ''add_to_order'' \<longrightarrow> drink (args c) \<noteq> None \<and> modifiers (args c) \<noteq> None)"

text \<open>The line item an \<open>add_to_order\<close> call with both arguments asks for.\<close>

definition requested_item :: "tool_call \<Rightarrow> string" where
  "requested_item c = line_item (the (drink (args c))) (the (modifiers (args c)))"

section \<open>Facts about the loop of \<open>order_node\<close>\<close>

lemma randint_range: "a \<le> b \<Longrightarrow> a \<le> randint a b r \<and> randint a b r \<le> b"
proof -
  assume ab: "a \<le> b"
  have "0 < nat (b - a + 1)" using ab by simp
  then have "r mod nat (b - a + 1) < nat (b - a + 1)" by simp
  then have "int (r mod nat (b - a + 1)) < b - a + 1" using ab by linarith
  then show ?thesis by (simp add: randint_def)
qed

lemma run_calls_append:
  "run_calls g (xs @ ys) s =
     (case run_calls g xs s of Inl e \<Rightarrow> Inl e | Inr s' \<Rightarrow> run_calls g ys s')"
  by (induction xs arbitrary: s) (auto split: sum.splits)

lemma handle_call_add:
  "name c = ''add_to_order'' \<Longrightarrow> drink (args c) = Some d \<Longrightarrow> modifiers (args c) = Some ms \<Longrightarrow>
   handle_call g c s =
     Inr (s\<lparr>cur_order := cur_order s @ [line_item d ms],
            outbound_msgs := outbound_msgs s @
              [ToolMessage (''Order updated: '' @ join '', '' (cur_order s @ [line_item d ms]) @ ''.'')
                 (name c) (call_id c)]\<rparr>)"
  by (simp add: handle_call_def dispatch_def Let_def)

lemma handle_call_confirm:
  "name c = ''confirm_order'' \<Longrightarrow>
   handle_call g c s =
     Inr (s\<lparr>outbound_msgs := outbound_msgs s @
              [ToolMessage (''Your order is: '' @ join '', '' (cur_order s) @ ''. Is this correct?'')
                 (name c) (call_id c)]\<rparr>)"
  by (simp add: handle_call_def dispatch_def)

lemma handle_call_clear:
  "name c = ''clear_order'' \<Longrightarrow>
   handle_call g c s =
     Inr (s\<lparr>cur_order := [],
            outbound_msgs := outbound_msgs s @
              [ToolMessage ''Order cleared.'' (name c) (call_id c)]\<rparr>)"
  by (simp add: handle_call_def dispatch_def)

lemma handle_call_place:
  "name c = ''place_order'' \<Longrightarrow>
   handle_call g c s =
     Inr (s\<lparr>order_placed := True, draws := Suc (draws s),
            outbound_msgs := outbound_msgs s @
              [ToolMessage (''Order placed! ETA: '' @ str_int (randint 1 5 (g (draws s))) @ '' minutes.'')
                 (name c) (call_id c)]\<rparr>)"
  by (simp add: handle_call_def dispatch_def)

lemma handle_call_other:
  "name c \<noteq> ''add_to_order'' \<Longrightarrow> name c \<noteq> ''confirm_order'' \<Longrightarrow>
   name c \<noteq> ''clear_order'' \<Longrightarrow> name c \<noteq> ''place_order'' \<Longrightarrow>
   handle_call g c s =
     Inr (s\<lparr>outbound_msgs := outbound_msgs s @
              [ToolMessage ''Unrecognized action.'' (name c) (call_id c)]\<rparr>)"
  by (simp add: handle_call_def dispatch_def)

lemma handle_call_outbound:
  "handle_call g c s = Inr s' \<Longrightarrow>
   \<exists>r. outbound_msgs s' = outbound_msgs s @ [ToolMessage r (name c) (call_id c)]"
  unfolding handle_call_def dispatch_def Let_def
  by (simp split: if_splits option.splits) auto

lemma handle_call_placed:
  "handle_call g c s = Inr s' \<Longrightarrow>
   order_placed s' = (order_placed s \<or> name c = ''place_order'')"
  by (auto simp: handle_call_def dispatch_def Let_def split: if_splits option.splits)

lemma run_calls_placed:
  "run_calls g cs s = Inr s' \<Longrightarrow>
   order_placed s' = (order_placed s \<or> (\<exists>c\<in>set cs. name c = ''place_order''))"
proof (induction cs arbitrary: s)
  case Nil
  then show ?case by simp
next
  case (Cons c cs)
  from Cons.prems obtain s1 where h: "handle_call g c s = Inr s1" and r: "run_calls g cs s1 = Inr s'"
    by (auto split: sum.splits)
  from Cons.IH [OF r] handle_call_placed [OF h] show ?case by auto
qed

lemma handle_call_total:
  "has_required_args c \<Longrightarrow> \<exists>s'. handle_call g c s = Inr s'"
  by (auto simp: has_required_args_def handle_call_def dispatch_def Let_def)

lemma run_calls_total:
  "\<forall>c\<in>set cs. has_required_args c \<Longrightarrow> \<exists>s'. run_calls g cs s = Inr s'"
proof (induction cs arbitrary: s)
  case Nil
  then show ?case by simp
next
  case (Cons c cs)
  then obtain s1 where "handle_call g c s = Inr s1"
    using handle_call_total [of c g s] by auto
  with Cons show ?case by simp
qed

lemma order_node_AI:
  "messages st \<noteq> [] \<Longrightarrow> tool_calls (last (messages st)) = Some cs \<Longrightarrow>
   order_node st g =
     (case run_calls g cs (init_locals st) of
        Inl e \<Rightarrow> Inl e
      | Inr s \<Rightarrow> Inr \<lparr>messages = outbound_msgs s, order = cur_order s, finished = order_placed s\<rparr>)"
  by (cases "messages st") (simp_all add: order_node_def)

lemma router_eq:
  "messages s \<noteq> [] \<Longrightarrow>
   router s = Inr (if hasattr_tool_calls (last (messages s)) then ''ordering'' else ''chatbot'')"
  by (cases "messages s") (simp_all add: router_def)

lemma order_node_ignores_finished:
  "order_node (st\<lparr>finished := b\<rparr>) g = order_node st g"
  by (cases "messages st") (simp_all add: order_node_def init_locals_def split: option.splits)

lemma handle_call_outbound_indep:
  "handle_call g c s = Inr s' \<Longrightarrow>
   \<exists>out'. handle_call g c (s\<lparr>outbound_msgs := out\<rparr>) = Inr (s'\<lparr>outbound_msgs := out'\<rparr>)"
  unfolding handle_call_def dispatch_def Let_def
  by (simp split: if_splits option.splits) auto

lemma run_calls_outbound_indep:
  "run_calls g cs s = Inr s' \<Longrightarrow>
   \<exists>out'. run_calls g cs (s\<lparr>outbound_msgs := out\<rparr>) = Inr (s'\<lparr>outbound_msgs := out'\<rparr>)"
proof (induction cs arbitrary: s out)
  case Nil
  then show ?case by auto
next
  case (Cons c cs)
  from Cons.prems obtain s1 where h: "handle_call g c s = Inr s1" and r: "run_calls g cs s1 = Inr s'"
    by (auto split: sum.splits)
  from handle_call_outbound_indep [OF h, of out] obtain out1 where
    h': "handle_call g c (s\<lparr>outbound_msgs := out\<rparr>) = Inr (s1\<lparr>outbound_msgs := out1\<rparr>)"
    by blast
  from Cons.IH [OF r, of out1] obtain out' where
    "run_calls g cs (s1\<lparr>outbound_msgs := out1\<rparr>) = Inr (s'\<lparr>outbound_msgs := out'\<rparr>)"
    by blast
  with h' show ?case by auto
qed

lemma run_calls_without:
  assumes run: "run_calls g (cs1 @ c # cs2) s0 = Inr u"
    and skip: "\<And>a. \<exists>out. handle_call g c a = Inr (a\<lparr>outbound_msgs := out\<rparr>)"
  shows "\<exists>out'. run_calls g (cs1 @ cs2) s0 = Inr (u\<lparr>outbound_msgs := out'\<rparr>)"
proof -
  from run obtain a where a: "run_calls g cs1 s0 = Inr a" and rest: "run_calls g (c # cs2) a = Inr u"
    by (auto simp: run_calls_append split: sum.splits)
  from skip [of a] obtain out where h: "handle_call g c a = Inr (a\<lparr>outbound_msgs := out\<rparr>)"
    by blast
  with rest have r2: "run_calls g cs2 (a\<lparr>outbound_msgs := out\<rparr>) = Inr u"
    by simp
  from run_calls_outbound_indep [OF r2, of "outbound_msgs a"] obtain out' where
    "run_calls g cs2 (a\<lparr>outbound_msgs := out, outbound_msgs := outbound_msgs a\<rparr>) = Inr (u\<lparr>outbound_msgs := out'\<rparr>)"
    by blast
  then have "run_calls g cs2 a = Inr (u\<lparr>outbound_msgs := out'\<rparr>)"
    by simp
  with a show ?thesis
    by (auto simp: run_calls_append)
qed

lemma ordering_step_AI:
  "ordering_step st (AIMessage t cs) g =
     (case run_calls g cs (init_locals st) of
        Inl e \<Rightarrow> Inl e
      | Inr s \<Rightarrow> Inr \<lparr>messages = messages st @ AIMessage t cs # outbound_msgs s,
                      order = cur_order s, finished = order_placed s\<rparr>)"
proof -
  let ?st' = "st\<lparr>messages := messages st @ [AIMessage t cs]\<rparr>"
  have 1: "messages ?st' \<noteq> []"
    by simp
  have 2: "tool_calls (last (messages ?st')) = Some cs"
    by simp
  have 3: "init_locals ?st' = init_locals st"
    by (simp add: init_locals_def)
  show ?thesis
    unfolding ordering_step_def Let_def order_node_AI [OF 1 2] 3
    by (simp add: apply_update_def split: sum.splits)
qed

lemma ordering_step_without:
  assumes step: "ordering_step st (AIMessage t (cs1 @ c # cs2)) g = Inr r"
    and skip: "\<And>a. \<exists>out. handle_call g c a = Inr (a\<lparr>outbound_msgs := out\<rparr>)"
  shows "\<exists>r'. ordering_step st (AIMessage t (cs1 @ cs2)) g = Inr r'
           \<and> order r' = order r \<and> finished r' = finished r"
proof -
  from step obtain u where run: "run_calls g (cs1 @ c # cs2) (init_locals st) = Inr u"
    and r: "order r = cur_order u" "finished r = order_placed u"
    by (auto simp: ordering_step_AI split: sum.splits)
  from run_calls_without [OF run skip] obtain out' where
    "run_calls g (cs1 @ cs2) (init_locals st) = Inr (u\<lparr>outbound_msgs := out'\<rparr>)"
    by blast
  then show ?thesis
    using r by (simp add: ordering_step_AI)
qed

lemma ordering_step_prior_messages:
  "ordering_step st m g = Inr r \<Longrightarrow> take (length (messages st)) (messages r) = messages st"
  by (auto simp: ordering_step_def apply_update_def Let_def split: sum.splits)

lemma not_in_tools:
  "name c \<notin> set tools \<Longrightarrow>
   name c \<noteq> ''add_to_order'' \<and> name c \<noteq> ''confirm_order'' \<and>
   name c \<noteq> ''clear_order'' \<and> name c \<noteq> ''place_order''"
  by (auto simp: tools_def)

lemma skip_other:
  "name c \<notin> set tools \<Longrightarrow> \<exists>out. handle_call g c a = Inr (a\<lparr>outbound_msgs := out\<rparr>)"
  using not_in_tools [of c] handle_call_other [of c g a] by blast

lemma skip_confirm:
  "name c = ''confirm_order'' \<Longrightarrow> \<exists>out. handle_call g c a = Inr (a\<lparr>outbound_msgs := out\<rparr>)"
  using handle_call_confirm [of c g a] by blast

lemma handle_call_reply_eta:
  assumes "handle_call g c s = Inr s'"
  shows "\<exists>x. outbound_msgs s' = outbound_msgs s @ [ToolMessage x (name c) (call_id c)]
           \<and> (name c = ''place_order'' \<longrightarrow>
                (\<exists>eta. 1 \<le> eta \<and> eta \<le> 5
                   \<and> x = ''Order placed! ETA: '' @ str_int eta @ '' minutes.''))"
proof (cases "name c = ''place_order''")
  case True
  have "1 \<le> randint 1 5 (g (draws s)) \<and> randint 1 5 (g (draws s)) \<le> 5"
    by (rule randint_range) simp
  with assms True show ?thesis
    by (auto simp: handle_call_place)
next
  case False
  with handle_call_outbound [OF assms] show ?thesis
    by simp
qed

lemma run_calls_outbound_all:
  assumes "run_calls g cs s = Inr s'"
    and "\<forall>m\<in>set (outbound_msgs s). P m"
    and step: "\<And>c a a'. handle_call g c a = Inr a' \<Longrightarrow> P (last (outbound_msgs a'))"
  shows "\<forall>m\<in>set (outbound_msgs s'). P m"
  using assms(1,2)
proof (induction cs arbitrary: s)
  case Nil
  then show ?case by simp
next
  case (Cons c cs)
  from Cons.prems(1) obtain s1 where h: "handle_call g c s = Inr s1"
    and r: "run_calls g cs s1 = Inr s'"
    by (auto split: sum.splits)
  from handle_call_outbound [OF h] obtain x where
    o: "outbound_msgs s1 = outbound_msgs s @ [ToolMessage x (name c) (call_id c)]"
    by blast
  from step [OF h] o have "P (ToolMessage x (name c) (call_id c))"
    by simp
  with o Cons.prems(2) have "\<forall>m\<in>set (outbound_msgs s1). P m"
    by simp
  from Cons.IH [OF r this] show ?case .
qed

lemma handle_call_last_eta:
  assumes "handle_call g c a = Inr a'"
  shows "tool_name (last (outbound_msgs a')) = ''place_order'' \<longrightarrow>
           (\<exists>eta. 1 \<le> eta \<and> eta \<le> 5
              \<and> content (last (outbound_msgs a')) =
                  ''Order placed! ETA: '' @ str_int eta @ '' minutes.'')"
proof -
  from handle_call_reply_eta [OF assms] obtain x where
    o: "outbound_msgs a' = outbound_msgs a @ [ToolMessage x (name c) (call_id c)]"
    and e: "name c = ''place_order'' \<longrightarrow>
                (\<exists>eta. 1 \<le> eta \<and> eta \<le> 5
                   \<and> x = ''Order placed! ETA: '' @ str_int eta @ '' minutes.'')"
    by blast
  have "last (outbound_msgs a') = ToolMessage x (name c) (call_id c)"
    by (simp add: o)
  then have "tool_name (last (outbound_msgs a')) = name c"
    and "content (last (outbound_msgs a')) = x"
    by simp_all
  with e show ?thesis
    by metis
qed

lemma run_calls_eta:
  assumes "run_calls g cs s = Inr s'"
    and "outbound_msgs s = []"
  shows "\<forall>m\<in>set (outbound_msgs s'). tool_name m = ''place_order'' \<longrightarrow>
           (\<exists>eta. 1 \<le> eta \<and> eta \<le> 5
              \<and> content m = ''Order placed! ETA: '' @ str_int eta @ '' minutes.'')"
proof (rule run_calls_outbound_all [OF assms(1)])
  show "\<forall>m\<in>set (outbound_msgs s). tool_name m = ''place_order'' \<longrightarrow>
           (\<exists>eta. 1 \<le> eta \<and> eta \<le> 5
              \<and> content m = ''Order placed! ETA: '' @ str_int eta @ '' minutes.'')"
    by (simp only: assms(2) list.set ball_empty)
next
  fix c a a'
  assume "handle_call g c a = Inr a'"
  then show "tool_name (last (outbound_msgs a')) = ''place_order'' \<longrightarrow>
           (\<exists>eta. 1 \<le> eta \<and> eta \<le> 5
              \<and> content (last (outbound_msgs a')) =
                  ''Order placed! ETA: '' @ str_int eta @ '' minutes.'')"
    by (rule handle_call_last_eta)
qed

lemma run_calls_snoc:
  "run_calls g (cs @ [c]) s =
     (case run_calls g cs s of Inl e \<Rightarrow> Inl e | Inr s' \<Rightarrow> handle_call g c s')"
  by (simp add: run_calls_append split: sum.splits)

lemma run_calls_adds:
  assumes "\<forall>c\<in>set cs. name c = ''add_to_order'' \<and> drink (args c) \<noteq> None
             \<and> modifiers (args c) \<noteq> None"
  shows "run_calls g cs s =
           Inr (s\<lparr>cur_order := cur_order s @ map requested_item cs,
                  outbound_msgs := outbound_msgs s @
                    map (\<lambda>i. ToolMessage
                           (''Order updated: '' @
                              join '', '' (cur_order s @ map requested_item (take (Suc i) cs)) @ ''.'')
                           (name (cs ! i)) (call_id (cs ! i)))
                      [0..<length cs]\<rparr>)"
  using assms
proof (induction cs rule: rev_induct)
  case Nil
  then show ?case by simp
next
  case (snoc c cs)
  let ?f = "\<lambda>xs i. ToolMessage
                           (''Order updated: '' @
                              join '', '' (cur_order s @ map requested_item (take (Suc i) xs)) @ ''.'')
                           (name (xs ! i)) (call_id (xs ! i))"
  let ?s1 = "s\<lparr>cur_order := cur_order s @ map requested_item cs,
                  outbound_msgs := outbound_msgs s @ map (?f cs) [0..<length cs]\<rparr>"
  from snoc have r: "run_calls g cs s = Inr ?s1"
    by simp
  from snoc.prems obtain d ms where c: "name c = ''add_to_order''"
    "drink (args c) = Some d" "modifiers (args c) = Some ms"
    by auto
  have item: "requested_item c = line_item d ms"
    by (simp add: requested_item_def c)
  have same: "map (?f (cs @ [c])) [0..<length cs] = map (?f cs) [0..<length cs]"
    by (rule map_cong) (simp_all add: nth_append)
  have lastf: "?f (cs @ [c]) (length cs) =
      ToolMessage (''Order updated: '' @
                     join '', '' (cur_order s @ map requested_item cs @ [line_item d ms]) @ ''.'')
        (name c) (call_id c)"
    by (simp add: item)
  have "run_calls g (cs @ [c]) s = handle_call g c ?s1"
    by (simp add: run_calls_snoc r)
  also have "\<dots> = Inr (?s1\<lparr>cur_order := cur_order ?s1 @ [line_item d ms],
            outbound_msgs := outbound_msgs ?s1 @
              [ToolMessage (''Order updated: '' @ join '', '' (cur_order ?s1 @ [line_item d ms]) @ ''.'')
                 (name c) (call_id c)]\<rparr>)"
    by (rule handle_call_add [OF c])
  also have "\<dots> = Inr (s\<lparr>cur_order := cur_order s @ map requested_item (cs @ [c]),
                  outbound_msgs := outbound_msgs s @
                    map (?f (cs @ [c])) [0..<length (cs @ [c])]\<rparr>)"
    unfolding length_append_singleton upt_Suc_append [OF le0] map_append same
    by (simp add: item lastf)
  finally show ?case .
qed



lemma handle_call_no_ValueError: "handle_call g c s \<noteq> Inl (ValueError e)"
  unfolding handle_call_def dispatch_def Let_def
  by (simp split: option.splits)

lemma run_calls_no_ValueError: "run_calls g cs s \<noteq> Inl (ValueError e)"
proof (induction cs arbitrary: s)
  case Nil
  show ?case by simp
next
  case (Cons c cs)
  show ?case
  proof (cases "handle_call g c s")
    case (Inl x)
    with handle_call_no_ValueError [of g c s e] show ?thesis
      by auto
  next
    case (Inr s1)
    with Cons.IH [of s1] show ?thesis
      by simp
  qed
qed

lemma order_node_no_ValueError: "order_node st g \<noteq> Inl (ValueError e)"
  using run_calls_no_ValueError [of g _ "init_locals st" e]
  by (auto simp: order_node_def split: list.splits option.splits sum.splits)

lemma ordering_step_no_ValueError: "ordering_step st m g \<noteq> Inl (ValueError e)"
  using order_node_no_ValueError [of _ g e]
  by (auto simp: ordering_step_def Let_def split: sum.splits)

lemma run_turns_no_ValueError: "run_turns st turns \<noteq> Inl (ValueError e)"
proof (induction turns arbitrary: st)
  case Nil
  show ?case by simp
next
  case (Cons a turns)
  obtain m g where a: "a = (m, g)"
    by (cases a)
  show ?case
  proof (cases "ordering_step st m g")
    case (Inl x)
    with ordering_step_no_ValueError [of st m g e] a show ?thesis
      by auto
  next
    case (Inr st1)
    with Cons.IH [of st1] a show ?thesis
      by simp
  qed
qed

lemma ordering_step_ignores_finished:
  "ordering_step (st\<lparr>finished := b\<rparr>) m g = ordering_step st m g"
proof -
  have 1: "(st\<lparr>finished := b\<rparr>)\<lparr>messages := messages (st\<lparr>finished := b\<rparr>) @ [m]\<rparr>
             = (st\<lparr>messages := messages st @ [m]\<rparr>)\<lparr>finished := b\<rparr>"
    by simp
  show ?thesis
    unfolding ordering_step_def Let_def 1 order_node_ignores_finished
    by (simp add: apply_update_def split: sum.splits)
qed

section \<open>The turn router\<close>

text \<open>
  Claim C2. The code does not do what the claim says. The conditional edge tests only
  whether the latest message has the attribute \<open>tool_calls\<close>, which every assistant
  message has, and its other branch names the node \<open>chatbot\<close>: the assistant's plain
  reply \<open>Hello\<close>, whose list of tool calls is empty, is routed to the node \<open>ordering\<close>
  and not to the terminal node, and the order node then runs on the empty batch and
  returns no message.
\<close>

theorem router_empty_tool_calls_dispatches:
  "router \<lparr>messages = [HumanMessage ''Hi'', AIMessage ''Hello'' []], order = [], finished = False\<rparr>
     = Inr ''ordering'' \<and>
   router \<lparr>messages = [HumanMessage ''Hi'', AIMessage ''Hello'' []], order = [], finished = False\<rparr>
     \<noteq> Inr END \<and>
   order_node \<lparr>messages = [HumanMessage ''Hi'', AIMessage ''Hello'' []], order = [], finished = False\<rparr>
       (const_rng 0)
     = Inr \<lparr>messages = [], order = [], finished = False\<rparr>"
  by (simp add: router_def hasattr_tool_calls_def END_def order_node_def init_locals_def)

section \<open>The flag \<open>finished\<close>\<close>

text \<open>
  Claim C1, as stated, fails. The claim says that once \<open>finished\<close> is true after a step of
  the order node it is true after every later step. \<open>order_node\<close> starts every step with
  \<open>order_placed = False\<close> and returns that local as \<open>finished\<close>: in a session whose first
  step places the order and whose second step asks for a confirmation, \<open>finished\<close> is true
  after the first step and false after the second.
\<close>

theorem finished_reset_counterexample:
  "run_turns new_session
     [(AIMessage [] [call ''place_order'' no_args ''c1''], const_rng 0)]
   = Inr \<lparr>messages = [AIMessage [] [call ''place_order'' no_args ''c1''],
                       ToolMessage ''Order placed! ETA: 1 minutes.'' ''place_order'' ''c1''],
          order = [], finished = True\<rparr>
   \<and>
   run_turns new_session
     [(AIMessage [] [call ''place_order'' no_args ''c1''], const_rng 0),
      (AIMessage [] [call ''confirm_order'' no_args ''c2''], const_rng 0)]
   = Inr \<lparr>messages = [AIMessage [] [call ''place_order'' no_args ''c1''],
                       ToolMessage ''Order placed! ETA: 1 minutes.'' ''place_order'' ''c1'',
                       AIMessage [] [call ''confirm_order'' no_args ''c2''],
                       ToolMessage ''Your order is: . Is this correct?'' ''confirm_order'' ''c2''],
          order = [], finished = False\<rparr>"
  by (simp add: new_session_def ordering_step_def order_node_def init_locals_def handle_call_def
      dispatch_def call_def apply_update_def str_int_def randint_def const_rng_def digit_def)

text \<open>
  Claim C1, amended. Within one step of the order node the flag, once set by a
  \<open>place_order\<close> call, is not reset by the later calls of the same batch: a batch that
  holds a \<open>place_order\<close> call anywhere (and whose \<open>add_to_order\<close> calls have their
  arguments) returns \<open>finished = True\<close>. The flag is not carried from one step to the
  next: for every state and every batch, what the order node returns and the state after
  the step are the same whatever \<open>finished\<close> was before, and a step whose batch holds no
  \<open>place_order\<close> call returns \<open>finished = False\<close>.
\<close>

theorem finished_kept_within_step:
  "(messages st \<noteq> [] \<and> tool_calls (last (messages st)) = Some (cs1 @ c # cs2)
      \<and> name c = ''place_order'' \<and> (\<forall>c'\<in>set (cs1 @ c # cs2). has_required_args c')
      \<longrightarrow> (\<exists>upd. order_node st g = Inr upd \<and> finished upd))
   \<and> order_node (st\<lparr>finished := b\<rparr>) g = order_node st g
   \<and> ordering_step (st\<lparr>finished := b\<rparr>) m g = ordering_step st m g
   \<and> (messages st \<noteq> [] \<and> tool_calls (last (messages st)) = Some cs
      \<and> (\<forall>c'\<in>set cs. name c' \<noteq> ''place_order'') \<and> order_node st g = Inr upd'
      \<longrightarrow> \<not> finished upd')"
proof (intro conjI impI)
  assume a: "messages st \<noteq> [] \<and> tool_calls (last (messages st)) = Some (cs1 @ c # cs2)
      \<and> name c = ''place_order'' \<and> (\<forall>c'\<in>set (cs1 @ c # cs2). has_required_args c')"
  then have a1: "messages st \<noteq> []"
    and a2: "tool_calls (last (messages st)) = Some (cs1 @ c # cs2)"
    and a3: "name c = ''place_order''"
    and a4: "\<forall>c'\<in>set (cs1 @ c # cs2). has_required_args c'"
    by blast+
  from run_calls_total [OF a4] obtain s' where
    r: "run_calls g (cs1 @ c # cs2) (init_locals st) = Inr s'"
    by blast
  from run_calls_placed [OF r] a3 have "order_placed s'"
    by auto
  then show "\<exists>upd. order_node st g = Inr upd \<and> finished upd"
    using r by (simp add: order_node_AI [OF a1 a2])
next
  show "order_node (st\<lparr>finished := b\<rparr>) g = order_node st g"
    by (rule order_node_ignores_finished)
next
  show "ordering_step (st\<lparr>finished := b\<rparr>) m g = ordering_step st m g"
    by (rule ordering_step_ignores_finished)
next
  assume a: "messages st \<noteq> [] \<and> tool_calls (last (messages st)) = Some cs
      \<and> (\<forall>c'\<in>set cs. name c' \<noteq> ''place_order'') \<and> order_node st g = Inr upd'"
  then have a1: "messages st \<noteq> []"
    and a2: "tool_calls (last (messages st)) = Some cs"
    and a3: "\<forall>c'\<in>set cs. name c' \<noteq> ''place_order''"
    and a4: "order_node st g = Inr upd'"
    by blast+
  from a4 obtain s' where r: "run_calls g cs (init_locals st) = Inr s'"
    and u: "finished upd' = order_placed s'"
    by (auto simp: order_node_AI [OF a1 a2] split: sum.splits)
  from run_calls_placed [OF r] a3 have "\<not> order_placed s'"
    by (simp add: init_locals_def)
  with u show "\<not> finished upd'"
    by simp
qed

theorem finished_kept_within_step_witness:
  "(\<exists>upd. order_node
            \<lparr>messages = [AIMessage [] [call ''place_order'' no_args ''c1'',
                                       call ''confirm_order'' no_args ''c2'']],
               order = [''Mocha (no modifiers)''], finished = False\<rparr> (const_rng 7) = Inr upd
          \<and> finished upd)
   \<and> order_node
        (\<lparr>messages = [AIMessage [] [call ''place_order'' no_args ''c1'',
                                    call ''confirm_order'' no_args ''c2'']],
            order = [''Mocha (no modifiers)''], finished = False\<rparr>\<lparr>finished := True\<rparr>) (const_rng 7)
     = order_node
        \<lparr>messages = [AIMessage [] [call ''place_order'' no_args ''c1'',
                                   call ''confirm_order'' no_args ''c2'']],
           order = [''Mocha (no modifiers)''], finished = False\<rparr> (const_rng 7)"
proof -
  let ?p = "call ''place_order'' no_args ''c1''"
  let ?q = "call ''confirm_order'' no_args ''c2''"
  let ?st = "\<lparr>messages = [AIMessage [] [?p, ?q]], order = [''Mocha (no modifiers)''],
              finished = False\<rparr>"
  have h: "messages ?st \<noteq> [] \<and> tool_calls (last (messages ?st)) = Some ([] @ ?p # [?q])
      \<and> name ?p = ''place_order'' \<and> (\<forall>c'\<in>set ([] @ ?p # [?q]). has_required_args c')"
    by (simp add: has_required_args_def call_def)
  note t = finished_kept_within_step [of ?st "[]" ?p "[?q]" "const_rng 7" True
      "AIMessage [] []" "[]" ?st]
  from t [THEN conjunct1] h
  have "\<exists>upd. order_node ?st (const_rng 7) = Inr upd \<and> finished upd"
    by (rule mp)
  moreover from t [THEN conjunct2, THEN conjunct1]
  have "order_node (?st\<lparr>finished := True\<rparr>) (const_rng 7) = order_node ?st (const_rng 7)" .
  ultimately show ?thesis
    by (rule conjI)
qed

text \<open>
  Claim C6. For every batch of tool calls that a step of the order node processes (the
  \<open>add_to_order\<close> calls with their arguments, so that the step returns), the returned
  \<open>finished\<close> is true if and only if some call of the batch is named \<open>place_order\<close>,
  whatever \<open>finished\<close> was before the step.
\<close>

theorem finished_iff_place_order:
  assumes "messages st \<noteq> []"
    and "tool_calls (last (messages st)) = Some cs"
    and "\<forall>c\<in>set cs. has_required_args c"
  shows "\<exists>upd. order_node st g = Inr upd
           \<and> (finished upd \<longleftrightarrow> (\<exists>c\<in>set cs. name c = ''place_order''))"
proof -
  from run_calls_total [OF assms(3)] obtain s' where
    r: "run_calls g cs (init_locals st) = Inr s'"
    by blast
  have "order_placed s' = (\<exists>c\<in>set cs. name c = ''place_order'')"
    using run_calls_placed [OF r] by (simp add: init_locals_def)
  then show ?thesis
    using r by (simp add: order_node_AI [OF assms(1,2)])
qed

theorem finished_iff_place_order_witness:
  "(\<exists>upd. order_node
            \<lparr>messages = [AIMessage [] [call ''clear_order'' no_args ''c1'']],
               order = [''Latte (Oat)''], finished = True\<rparr> (const_rng 2) = Inr upd
          \<and> \<not> finished upd)
   \<and> (\<exists>upd. order_node
            \<lparr>messages = [AIMessage [] [call ''clear_order'' no_args ''c1'',
                                       call ''place_order'' no_args ''c2'']],
               order = [''Latte (Oat)''], finished = False\<rparr> (const_rng 2) = Inr upd
          \<and> finished upd)"
proof -
  let ?p = "call ''place_order'' no_args ''c2''"
  let ?q = "call ''clear_order'' no_args ''c1''"
  let ?a = "\<lparr>messages = [AIMessage [] [?q]], order = [''Latte (Oat)''], finished = True\<rparr>"
  let ?b = "\<lparr>messages = [AIMessage [] [?q, ?p]], order = [''Latte (Oat)''], finished = False\<rparr>"
  have a1: "messages ?a \<noteq> []" and b1: "messages ?b \<noteq> []"
    by simp_all
  have a2: "tool_calls (last (messages ?a)) = Some [?q]"
    and b2: "tool_calls (last (messages ?b)) = Some [?q, ?p]"
    by simp_all
  have a3: "\<forall>c\<in>set [?q]. has_required_args c"
    and b3: "\<forall>c\<in>set [?q, ?p]. has_required_args c"
    by (simp_all add: has_required_args_def call_def)
  have na: "\<not> (\<exists>c\<in>set [?q]. name c = ''place_order'')"
    by (simp add: call_def)
  have nb: "\<exists>c\<in>set [?q, ?p]. name c = ''place_order''"
    by (simp add: call_def)
  from finished_iff_place_order [OF a1 a2 a3, of "const_rng 2"] na
  have "\<exists>upd. order_node ?a (const_rng 2) = Inr upd \<and> \<not> finished upd"
    by blast
  moreover from finished_iff_place_order [OF b1 b2 b3, of "const_rng 2"] nb
  have "\<exists>upd. order_node ?b (const_rng 2) = Inr upd \<and> finished upd"
    by blast
  ultimately show ?thesis
    by (rule conjI)
qed

section \<open>The branches of the order node\<close>

text \<open>
  Claim C5, as stated, fails. The claim says that a request with an unregistered name
  leaves \<open>finished\<close> unchanged. A step whose batch is one such request, taken from a state
  in which \<open>finished\<close> is true, returns \<open>finished = False\<close>: the order node does not carry
  the flag over.
\<close>

theorem unregistered_tool_counterexample:
  "''get_weather'' \<notin> set tools \<and>
   ordering_step
     \<lparr>messages = [HumanMessage ''What is the weather?''], order = [''Latte (Oat)''],
        finished = True\<rparr>
     (AIMessage [] [call ''get_weather'' no_args ''c9'']) (const_rng 0)
   = Inr \<lparr>messages = [HumanMessage ''What is the weather?'',
                       AIMessage [] [call ''get_weather'' no_args ''c9''],
                       ToolMessage ''Unrecognized action.'' ''get_weather'' ''c9''],
          order = [''Latte (Oat)''], finished = False\<rparr>"
  by (simp add: tools_def ordering_step_def order_node_def init_locals_def handle_call_def
      dispatch_def call_def apply_update_def)

text \<open>
  Claim C5, amended. A tool call whose name is not one of the registered names is
  answered with the fixed text \<open>Unrecognized action.\<close>; processing it leaves the order and
  the placement flag of the loop as they were and appends the one reply to the replies
  produced so far. A step whose batch is that call alone keeps the earlier messages and
  the order, and returns \<open>finished = False\<close> whatever \<open>finished\<close> was before. In any
  batch, the order and the flag \<open>finished\<close> that the step returns are those of the same
  batch without the call, and the earlier messages stay in place.
\<close>

theorem unregistered_tool_reply:
  assumes "name c \<notin> set tools"
  shows "handle_call g c s =
           Inr (s\<lparr>outbound_msgs := outbound_msgs s @
                  [ToolMessage ''Unrecognized action.'' (name c) (call_id c)]\<rparr>)
       \<and> ordering_step st (AIMessage t [c]) g =
           Inr \<lparr>messages = messages st @
                  [AIMessage t [c], ToolMessage ''Unrecognized action.'' (name c) (call_id c)],
                order = order st, finished = False\<rparr>
       \<and> (ordering_step st (AIMessage t (cs1 @ c # cs2)) g = Inr r' \<longrightarrow>
            (\<exists>r''. ordering_step st (AIMessage t (cs1 @ cs2)) g = Inr r''
                  \<and> order r'' = order r' \<and> finished r'' = finished r')
            \<and> take (length (messages st)) (messages r') = messages st)"
proof (intro conjI impI)
  from not_in_tools [OF assms]
  show "handle_call g c s =
           Inr (s\<lparr>outbound_msgs := outbound_msgs s @
                  [ToolMessage ''Unrecognized action.'' (name c) (call_id c)]\<rparr>)"
    by (simp add: handle_call_other)
  from not_in_tools [OF assms]
  show "ordering_step st (AIMessage t [c]) g =
           Inr \<lparr>messages = messages st @
                  [AIMessage t [c], ToolMessage ''Unrecognized action.'' (name c) (call_id c)],
                order = order st, finished = False\<rparr>"
    by (simp add: ordering_step_AI handle_call_other init_locals_def)
next
  assume r: "ordering_step st (AIMessage t (cs1 @ c # cs2)) g = Inr r'"
  show "\<exists>r''. ordering_step st (AIMessage t (cs1 @ cs2)) g = Inr r''
               \<and> order r'' = order r' \<and> finished r'' = finished r'"
    by (rule ordering_step_without [OF r]) (rule skip_other [OF assms])
  show "take (length (messages st)) (messages r') = messages st"
    by (rule ordering_step_prior_messages [OF r])
qed

theorem unregistered_tool_reply_witness:
  "ordering_step
     \<lparr>messages = [HumanMessage ''Play some music''], order = [''Latte (Oat)''],
        finished = True\<rparr>
     (AIMessage [] [call ''play_music'' no_args ''c4'']) (const_rng 0)
   = Inr \<lparr>messages = [HumanMessage ''Play some music'',
                       AIMessage [] [call ''play_music'' no_args ''c4''],
                       ToolMessage ''Unrecognized action.'' ''play_music'' ''c4''],
          order = [''Latte (Oat)''], finished = False\<rparr>"
proof -
  let ?c = "call ''play_music'' no_args ''c4''"
  let ?st = "\<lparr>messages = [HumanMessage ''Play some music''], order = [''Latte (Oat)''],
               finished = True\<rparr>"
  have h: "name ?c \<notin> set tools"
    by (simp add: tools_def call_def)
  have "ordering_step ?st (AIMessage [] [?c]) (const_rng 0) =
           Inr \<lparr>messages = messages ?st @
                  [AIMessage [] [?c], ToolMessage ''Unrecognized action.'' (name ?c) (call_id ?c)],
                order = order ?st, finished = False\<rparr>"
    by (rule unregistered_tool_reply [OF h, THEN conjunct2, THEN conjunct1])
  then show ?thesis
    by (simp add: call_def)
qed

text \<open>
  Claim C7, as stated, fails. The claim says that processing a \<open>confirm_order\<close> call
  does not change \<open>finished\<close>. A step whose batch is one \<open>confirm_order\<close> call, taken from
  a state in which \<open>finished\<close> is true, returns \<open>finished = False\<close>.
\<close>

theorem confirm_order_counterexample:
  "ordering_step
     \<lparr>messages = [HumanMessage ''Is that all?''], order = [''Espresso (no modifiers)''],
        finished = True\<rparr>
     (AIMessage []
        [call ''confirm_order''
           \<lparr>drink = None, modifiers = None, order_arg = Some [''Espresso (no modifiers)'']\<rparr>
           ''c3''])
     (const_rng 0)
   = Inr \<lparr>messages = [HumanMessage ''Is that all?'',
                       AIMessage []
                         [call ''confirm_order''
                            \<lparr>drink = None, modifiers = None,
                               order_arg = Some [''Espresso (no modifiers)'']\<rparr>
                            ''c3''],
                       ToolMessage ''Your order is: Espresso (no modifiers). Is this correct?''
                         ''confirm_order'' ''c3''],
          order = [''Espresso (no modifiers)''], finished = False\<rparr>"
  by (simp add: ordering_step_def order_node_def init_locals_def handle_call_def
      dispatch_def call_def apply_update_def)

text \<open>
  Claim C7, amended. Processing a \<open>confirm_order\<close> call leaves the order and the
  placement flag of the loop as they were; its reply is \<open>Your order is: \<close>, the current
  order joined by \<open>, \<close>, and \<open>. Is this correct?\<close>. The order restated is the one the
  state holds, not the argument \<open>order\<close> of the call. A step whose batch is that call
  alone keeps the earlier messages and the order, and returns \<open>finished = False\<close> whatever
  \<open>finished\<close> was before. In any batch, the order and the flag \<open>finished\<close> that the step
  returns are those of the same batch without the call.
\<close>

theorem confirm_order_reply:
  assumes "name c = ''confirm_order''"
  shows "handle_call g c s =
           Inr (s\<lparr>outbound_msgs := outbound_msgs s @
                  [ToolMessage (''Your order is: '' @ join '', '' (cur_order s) @ ''. Is this correct?'')
                     (name c) (call_id c)]\<rparr>)
       \<and> ordering_step st (AIMessage t [c]) g =
           Inr \<lparr>messages = messages st @
                  [AIMessage t [c],
                   ToolMessage (''Your order is: '' @ join '', '' (order st) @ ''. Is this correct?'')
                     (name c) (call_id c)],
                order = order st, finished = False\<rparr>
       \<and> (ordering_step st (AIMessage t (cs1 @ c # cs2)) g = Inr r' \<longrightarrow>
            (\<exists>r''. ordering_step st (AIMessage t (cs1 @ cs2)) g = Inr r''
                  \<and> order r'' = order r' \<and> finished r'' = finished r'))"
proof (intro conjI impI)
  show "handle_call g c s =
           Inr (s\<lparr>outbound_msgs := outbound_msgs s @
                  [ToolMessage (''Your order is: '' @ join '', '' (cur_order s) @ ''. Is this correct?'')
                     (name c) (call_id c)]\<rparr>)"
    by (rule handle_call_confirm [OF assms])
  show "ordering_step st (AIMessage t [c]) g =
           Inr \<lparr>messages = messages st @
                  [AIMessage t [c],
                   ToolMessage (''Your order is: '' @ join '', '' (order st) @ ''. Is this correct?'')
                     (name c) (call_id c)],
                order = order st, finished = False\<rparr>"
    by (simp add: ordering_step_AI handle_call_confirm [OF assms] init_locals_def)
next
  assume r: "ordering_step st (AIMessage t (cs1 @ c # cs2)) g = Inr r'"
  show "\<exists>r''. ordering_step st (AIMessage t (cs1 @ cs2)) g = Inr r''
               \<and> order r'' = order r' \<and> finished r'' = finished r'"
    by (rule ordering_step_without [OF r]) (rule skip_confirm [OF assms])
qed

theorem confirm_order_reply_witness:
  "ordering_step
     \<lparr>messages = [], order = [''Latte (Oat, Vanilla)'', ''Mocha (no modifiers)''],
        finished = True\<rparr>
     (AIMessage []
        [call ''confirm_order''
           \<lparr>drink = None, modifiers = None, order_arg = Some [''Americano (Whole)'']\<rparr> ''c5''])
     (const_rng 0)
   = Inr \<lparr>messages =
            [AIMessage []
               [call ''confirm_order''
                  \<lparr>drink = None, modifiers = None, order_arg = Some [''Americano (Whole)'']\<rparr>
                  ''c5''],
             ToolMessage
               ''Your order is: Latte (Oat, Vanilla), Mocha (no modifiers). Is this correct?''
               ''confirm_order'' ''c5''],
          order = [''Latte (Oat, Vanilla)'', ''Mocha (no modifiers)''], finished = False\<rparr>"
proof -
  let ?c = "call ''confirm_order''
              \<lparr>drink = None, modifiers = None, order_arg = Some [''Americano (Whole)'']\<rparr> ''c5''"
  let ?st = "\<lparr>messages = [], order = [''Latte (Oat, Vanilla)'', ''Mocha (no modifiers)''],
               finished = True\<rparr>"
  have h: "name ?c = ''confirm_order''"
    by (simp add: call_def)
  have "ordering_step ?st (AIMessage [] [?c]) (const_rng 0) =
           Inr \<lparr>messages = messages ?st @
                  [AIMessage [] [?c],
                   ToolMessage (''Your order is: '' @ join '', '' (order ?st) @ ''. Is this correct?'')
                     (name ?c) (call_id ?c)],
                order = order ?st, finished = False\<rparr>"
    by (rule confirm_order_reply [OF h, THEN conjunct2, THEN conjunct1])
  then show ?thesis
    by (simp add: call_def)
qed

text \<open>
  Claim C8. Processing a \<open>clear_order\<close> call yields the empty order whatever the order
  was, with the reply \<open>Order cleared.\<close>; processing a second one right after it yields
  the same empty order and the same reply text, and neither changes the placement flag. A
  step whose batch is one \<open>clear_order\<close> call and a step whose batch is two of them both
  return the empty order.
\<close>

theorem clear_order_idempotent:
  assumes "name c = ''clear_order''" and "name c' = ''clear_order''"
  shows "(\<exists>s1 s2. handle_call g c s = Inr s1 \<and> handle_call g c' s1 = Inr s2
            \<and> cur_order s1 = [] \<and> cur_order s2 = cur_order s1
            \<and> order_placed s1 = order_placed s \<and> order_placed s2 = order_placed s1
            \<and> content (last (outbound_msgs s1)) = ''Order cleared.''
            \<and> content (last (outbound_msgs s2)) = content (last (outbound_msgs s1)))
       \<and> ordering_step st (AIMessage t [c]) g =
           Inr \<lparr>messages = messages st @
                  [AIMessage t [c], ToolMessage ''Order cleared.'' (name c) (call_id c)],
                order = [], finished = False\<rparr>
       \<and> ordering_step st (AIMessage t [c, c']) g =
           Inr \<lparr>messages = messages st @
                  [AIMessage t [c, c'], ToolMessage ''Order cleared.'' (name c) (call_id c),
                   ToolMessage ''Order cleared.'' (name c') (call_id c')],
                order = [], finished = False\<rparr>"
proof (intro conjI)
  show "\<exists>s1 s2. handle_call g c s = Inr s1 \<and> handle_call g c' s1 = Inr s2
            \<and> cur_order s1 = [] \<and> cur_order s2 = cur_order s1
            \<and> order_placed s1 = order_placed s \<and> order_placed s2 = order_placed s1
            \<and> content (last (outbound_msgs s1)) = ''Order cleared.''
            \<and> content (last (outbound_msgs s2)) = content (last (outbound_msgs s1))"
    by (simp add: handle_call_clear [OF assms(1)] handle_call_clear [OF assms(2)])
  show "ordering_step st (AIMessage t [c]) g =
           Inr \<lparr>messages = messages st @
                  [AIMessage t [c], ToolMessage ''Order cleared.'' (name c) (call_id c)],
                order = [], finished = False\<rparr>"
    by (simp add: ordering_step_AI handle_call_clear [OF assms(1)] init_locals_def)
  show "ordering_step st (AIMessage t [c, c']) g =
           Inr \<lparr>messages = messages st @
                  [AIMessage t [c, c'], ToolMessage ''Order cleared.'' (name c) (call_id c),
                   ToolMessage ''Order cleared.'' (name c') (call_id c')],
                order = [], finished = False\<rparr>"
    by (simp add: ordering_step_AI handle_call_clear [OF assms(1)] handle_call_clear [OF assms(2)]
        init_locals_def)
qed

theorem clear_order_idempotent_witness:
  "ordering_step
     \<lparr>messages = [], order = [''Latte (Oat)'', ''Cold Brew (no modifiers)''], finished = False\<rparr>
     (AIMessage [] [call ''clear_order'' no_args ''c1'', call ''clear_order'' no_args ''c2''])
     (const_rng 0)
   = Inr \<lparr>messages = [AIMessage [] [call ''clear_order'' no_args ''c1'',
                                     call ''clear_order'' no_args ''c2''],
                       ToolMessage ''Order cleared.'' ''clear_order'' ''c1'',
                       ToolMessage ''Order cleared.'' ''clear_order'' ''c2''],
          order = [], finished = False\<rparr>"
proof -
  let ?c = "call ''clear_order'' no_args ''c1''"
  let ?d = "call ''clear_order'' no_args ''c2''"
  let ?st = "\<lparr>messages = [], order = [''Latte (Oat)'', ''Cold Brew (no modifiers)''],
               finished = False\<rparr>"
  have h: "name ?c = ''clear_order''" and h': "name ?d = ''clear_order''"
    by (simp_all add: call_def)
  have "ordering_step ?st (AIMessage [] [?c, ?d]) (const_rng 0) =
           Inr \<lparr>messages = messages ?st @
                  [AIMessage [] [?c, ?d], ToolMessage ''Order cleared.'' (name ?c) (call_id ?c),
                   ToolMessage ''Order cleared.'' (name ?d) (call_id ?d)],
                order = [], finished = False\<rparr>"
    by (rule clear_order_idempotent [OF h h', THEN conjunct2, THEN conjunct2])
  then show ?thesis
    by (simp add: call_def)
qed

text \<open>
  Claim C4. The tool function \<open>place_order\<close> returns an integer from 1 to 5, whatever
  the randomness source yields. Processing a \<open>place_order\<close> call sets the placement flag
  and replies \<open>Order placed! ETA: n minutes.\<close> with \<open>n\<close> from 1 to 5. A step whose batch
  holds a \<open>place_order\<close> call returns \<open>finished = True\<close>, and every reply to a
  \<open>place_order\<close> call among the messages it returns states an integer from 1 to 5.
\<close>

theorem place_order_eta_range:
  "1 \<le> place_order ord x \<and> place_order ord x \<le> 5
   \<and> (name c = ''place_order'' \<longrightarrow>
        (\<exists>eta. 1 \<le> eta \<and> eta \<le> 5
           \<and> handle_call g c s =
               Inr (s\<lparr>order_placed := True, draws := Suc (draws s),
                      outbound_msgs := outbound_msgs s @
                        [ToolMessage (''Order placed! ETA: '' @ str_int eta @ '' minutes.'')
                           (name c) (call_id c)]\<rparr>)))
   \<and> (messages st \<noteq> [] \<and> tool_calls (last (messages st)) = Some cs
        \<and> order_node st g = Inr upd \<longrightarrow>
        ((\<exists>c\<in>set cs. name c = ''place_order'') \<longrightarrow> finished upd)
        \<and> (\<forall>m\<in>set (messages upd). tool_name m = ''place_order'' \<longrightarrow>
              (\<exists>eta. 1 \<le> eta \<and> eta \<le> 5
                 \<and> content m = ''Order placed! ETA: '' @ str_int eta @ '' minutes.'')))"
proof (intro conjI impI)
  have "1 \<le> randint 1 5 x \<and> randint 1 5 x \<le> 5"
    by (rule randint_range) simp
  then show "1 \<le> place_order ord x" and "place_order ord x \<le> 5"
    by (simp_all add: place_order_def)
next
  assume p: "name c = ''place_order''"
  have "1 \<le> randint 1 5 (g (draws s)) \<and> randint 1 5 (g (draws s)) \<le> 5"
    by (rule randint_range) simp
  with handle_call_place [OF p, of g s]
  show "\<exists>eta. 1 \<le> eta \<and> eta \<le> 5
           \<and> handle_call g c s =
               Inr (s\<lparr>order_placed := True, draws := Suc (draws s),
                      outbound_msgs := outbound_msgs s @
                        [ToolMessage (''Order placed! ETA: '' @ str_int eta @ '' minutes.'')
                           (name c) (call_id c)]\<rparr>)"
    by blast
next
  assume a: "messages st \<noteq> [] \<and> tool_calls (last (messages st)) = Some cs
        \<and> order_node st g = Inr upd"
  then obtain s' where r: "run_calls g cs (init_locals st) = Inr s'"
    and u: "finished upd = order_placed s'" "messages upd = outbound_msgs s'"
    by (auto simp: order_node_AI split: sum.splits)
  {
    assume "\<exists>c\<in>set cs. name c = ''place_order''"
    with run_calls_placed [OF r] u show "finished upd"
      by simp
  }
  have "\<forall>m\<in>set (outbound_msgs s'). tool_name m = ''place_order'' \<longrightarrow>
           (\<exists>eta. 1 \<le> eta \<and> eta \<le> 5
              \<and> content m = ''Order placed! ETA: '' @ str_int eta @ '' minutes.'')"
    by (rule run_calls_eta [OF r]) (simp add: init_locals_def)
  then show "\<forall>m\<in>set (messages upd). tool_name m = ''place_order'' \<longrightarrow>
              (\<exists>eta. 1 \<le> eta \<and> eta \<le> 5
                 \<and> content m = ''Order placed! ETA: '' @ str_int eta @ '' minutes.'')"
    by (simp add: u)
qed

theorem place_order_eta_range_witness:
  "\<exists>eta. 1 \<le> eta \<and> eta \<le> 5
     \<and> handle_call (const_rng 12) (call ''place_order'' no_args ''c7'')
          \<lparr>cur_order = [''Mocha (Almond)''], outbound_msgs = [], order_placed = False,
             draws = 0\<rparr>
       = Inr \<lparr>cur_order = [''Mocha (Almond)''],
               outbound_msgs =
                 [ToolMessage (''Order placed! ETA: '' @ str_int eta @ '' minutes.'')
                    ''place_order'' ''c7''],
               order_placed = True, draws = Suc 0\<rparr>"
proof -
  let ?c = "call ''place_order'' no_args ''c7''"
  let ?s = "\<lparr>cur_order = [''Mocha (Almond)''], outbound_msgs = [], order_placed = False,
              draws = 0\<rparr>"
  have h: "name ?c = ''place_order''"
    by (simp add: call_def)
  from place_order_eta_range [of "[]" 0 ?c "const_rng 12" ?s new_session "[]" new_session]
  have "name ?c = ''place_order'' \<longrightarrow>
        (\<exists>eta. 1 \<le> eta \<and> eta \<le> 5
           \<and> handle_call (const_rng 12) ?c ?s =
               Inr (?s\<lparr>order_placed := True, draws := Suc (draws ?s),
                      outbound_msgs := outbound_msgs ?s @
                        [ToolMessage (''Order placed! ETA: '' @ str_int eta @ '' minutes.'')
                           (name ?c) (call_id ?c)]\<rparr>))"
    by (rule conjunct2 [THEN conjunct2, THEN conjunct1])
  with h show ?thesis
    by (simp add: call_def)
qed

text \<open>
  Claim C3. A step whose batch consists of \<open>add_to_order\<close> calls, each with its drink and
  its modifiers, appends one line item per call, in the order of the calls: the order
  after the step is the order before it followed by the items requested, so its length
  grows by the number of calls (and equals that number when the order was empty). An
  item is the drink, then in parentheses the modifiers joined by \<open>, \<close> or the words
  \<open>no modifiers\<close> (\<open>line_item\<close>). The reply to the \<open>i\<close>-th call is \<open>Order updated: \<close>,
  the items of the order as it is after that call joined by \<open>, \<close>, and a full stop.
\<close>

theorem add_to_order_appends:
  assumes "\<forall>c\<in>set cs. name c = ''add_to_order'' \<and> drink (args c) \<noteq> None
             \<and> modifiers (args c) \<noteq> None"
  shows "\<exists>r. ordering_step st (AIMessage t cs) g = Inr r
           \<and> order r = order st @ map requested_item cs
           \<and> length (order r) = length (order st) + length cs
           \<and> (order st = [] \<longrightarrow> length (order r) = length cs)
           \<and> messages r = messages st @ AIMessage t cs #
               map (\<lambda>i. ToolMessage
                      (''Order updated: '' @
                         join '', '' (order st @ map requested_item (take (Suc i) cs)) @ ''.'')
                      (name (cs ! i)) (call_id (cs ! i)))
                 [0..<length cs]"
  by (simp add: ordering_step_AI run_calls_adds [OF assms] init_locals_def)

theorem add_to_order_appends_witness:
  "\<exists>r. ordering_step new_session
          (AIMessage []
             [call ''add_to_order''
                \<lparr>drink = Some ''Latte'', modifiers = Some [''Oat'', ''Vanilla''], order_arg = None\<rparr>
                ''c1'',
              call ''add_to_order''
                \<lparr>drink = Some ''Espresso'', modifiers = Some [], order_arg = None\<rparr> ''c2''])
          (const_rng 0) = Inr r
      \<and> order r = [''Latte (Oat, Vanilla)'', ''Espresso (no modifiers)'']
      \<and> messages r =
          [AIMessage []
             [call ''add_to_order''
                \<lparr>drink = Some ''Latte'', modifiers = Some [''Oat'', ''Vanilla''], order_arg = None\<rparr>
                ''c1'',
              call ''add_to_order''
                \<lparr>drink = Some ''Espresso'', modifiers = Some [], order_arg = None\<rparr> ''c2''],
           ToolMessage ''Order updated: Latte (Oat, Vanilla).'' ''add_to_order'' ''c1'',
           ToolMessage ''Order updated: Latte (Oat, Vanilla), Espresso (no modifiers).''
             ''add_to_order'' ''c2'']"
proof -
  let ?a = "call ''add_to_order''
                \<lparr>drink = Some ''Latte'', modifiers = Some [''Oat'', ''Vanilla''], order_arg = None\<rparr>
                ''c1''"
  let ?b = "call ''add_to_order''
                \<lparr>drink = Some ''Espresso'', modifiers = Some [], order_arg = None\<rparr> ''c2''"
  have h: "\<forall>c\<in>set [?a, ?b]. name c = ''add_to_order'' \<and> drink (args c) \<noteq> None
             \<and> modifiers (args c) \<noteq> None"
    by (simp add: call_def)
  have up: "[0..<length [?a, ?b]] = [0, Suc 0]"
    by (simp add: upt_rec)
  have ia: "requested_item ?a = ''Latte (Oat, Vanilla)''"
    by (simp add: requested_item_def line_item_def call_def)
  have ib: "requested_item ?b = ''Espresso (no modifiers)''"
    by (simp add: requested_item_def line_item_def call_def)
  from add_to_order_appends [OF h, of new_session "[]" "const_rng 0"]
  obtain r where r: "ordering_step new_session (AIMessage [] [?a, ?b]) (const_rng 0) = Inr r"
    and o: "order r = order new_session @ map requested_item [?a, ?b]"
    and m: "messages r = messages new_session @ AIMessage [] [?a, ?b] #
               map (\<lambda>i. ToolMessage
                      (''Order updated: '' @
                         join '', '' (order new_session @ map requested_item (take (Suc i) [?a, ?b])) @ ''.'')
                      (name ([?a, ?b] ! i)) (call_id ([?a, ?b] ! i)))
                 [0..<length [?a, ?b]]"
    by blast
  have o': "order r = [''Latte (Oat, Vanilla)'', ''Espresso (no modifiers)'']"
    unfolding o by (simp add: new_session_def ia ib)
  have m': "messages r =
          [AIMessage [] [?a, ?b],
           ToolMessage ''Order updated: Latte (Oat, Vanilla).'' ''add_to_order'' ''c1'',
           ToolMessage ''Order updated: Latte (Oat, Vanilla), Espresso (no modifiers).''
             ''add_to_order'' ''c2'']"
    unfolding m up by (simp add: new_session_def ia ib) (simp add: call_def)
  from r o' m' show ?thesis
    by blast
qed

section \<open>One reply per request\<close>



section \<open>The credential\<close>

text \<open>
  Claim C10. When the variable \<open>GOOGLE_API_KEY\<close> is unset (or set to the empty string,
  which \<open>not GOOGLE_API_KEY\<close> treats alike), the configuration check fails with
  \<open>ValueError\<close> and so does the whole session, whatever turns were to follow: no turn is
  processed. When the variable holds a non-empty value, the check succeeds, leaves the
  environment as it is, and the session is the run of its turns. No step after the
  check raises this error.
\<close>

theorem missing_credential_fails_at_start:
  "(env ''GOOGLE_API_KEY'' = None \<or> env ''GOOGLE_API_KEY'' = Some [] \<longrightarrow>
      load_config env = Inl (ValueError ''Google API key not found! Add it to a .env file.'')
      \<and> session env turns = Inl (ValueError ''Google API key not found! Add it to a .env file.''))
   \<and> (env ''GOOGLE_API_KEY'' = Some k \<and> k \<noteq> [] \<longrightarrow>
        load_config env = Inr env \<and> session env turns = run_turns new_session turns)
   \<and> run_turns st turns \<noteq> Inl (ValueError e)"
proof (intro conjI impI)
  assume "env ''GOOGLE_API_KEY'' = None \<or> env ''GOOGLE_API_KEY'' = Some []"
  then show l: "load_config env = Inl (ValueError ''Google API key not found! Add it to a .env file.'')"
    by (auto simp: load_config_def)
  then show "session env turns = Inl (ValueError ''Google API key not found! Add it to a .env file.'')"
    by (simp add: session_def)
next
  assume p: "env ''GOOGLE_API_KEY'' = Some k \<and> k \<noteq> []"
  then have "env(''GOOGLE_API_KEY'' \<mapsto> k) = env"
    by (simp add: map_upd_triv)
  with p show l: "load_config env = Inr env"
    by (simp add: load_config_def)
  then show "session env turns = run_turns new_session turns"
    by (simp add: session_def)
next
  show "run_turns st turns \<noteq> Inl (ValueError e)"
    by (rule run_turns_no_ValueError)
qed

theorem missing_credential_fails_at_start_witness:
  "session Map.empty [(AIMessage [] [call ''clear_order'' no_args ''c1''], const_rng 0)]
     = Inl (ValueError ''Google API key not found! Add it to a .env file.'')
   \<and> load_config [''GOOGLE_API_KEY'' \<mapsto> ''secret'']
     = Inr [''GOOGLE_API_KEY'' \<mapsto> ''secret'']"
proof -
  let ?turns = "[(AIMessage [] [call ''clear_order'' no_args ''c1''], const_rng 0)]"
  let ?env = "[''GOOGLE_API_KEY'' \<mapsto> ''secret'']"
  have a: "(Map.empty :: string \<rightharpoonup> string) ''GOOGLE_API_KEY'' = None
             \<or> (Map.empty :: string \<rightharpoonup> string) ''GOOGLE_API_KEY'' = Some []"
    by simp
  have b: "?env ''GOOGLE_API_KEY'' = Some ''secret'' \<and> ''secret'' \<noteq> []"
    by simp
  from missing_credential_fails_at_start [of Map.empty ?turns "''x''" new_session "[]"] a
  have "session Map.empty ?turns
          = Inl (ValueError ''Google API key not found! Add it to a .env file.'')"
    by blast
  moreover
  from missing_credential_fails_at_start [of ?env ?turns "''secret''" new_session "[]"] b
  have "load_config ?env = Inr ?env"
    by blast
  ultimately show ?thesis
    by (rule conjI)
qed

end
